theory Spec2Isabelle
  imports Complex_Main "HOL-Library.AList"
begin

section \<open>The countdown component of \<open>src/App.jsx\<close>\<close>

text \<open>
  The component \<open>App\<close> keeps five state variables (\<open>useState\<close>) and five mutable references
  (\<open>useRef\<close>). The model is one record holding all of them, plus the part of the browser the
  code talks to: the set of interval timers that are still installed, the counter the next
  \<open>setInterval\<close> id is taken from, and the log of the calls made on \<open>Audio\<close> objects.

  JavaScript numbers are modelled as rationals. The duration and the countdown are computed
  exactly; this agrees with the double-precision arithmetic of the browser wherever no
  rounding occurs, which covers the integers and the binary fractions (such as \<open>1/2\<close>) used
  in the concrete evaluations below. The trigger times of the schedule are rounded as the
  browser rounds them (\<open>toDouble\<close> below). A string is a list of characters, one per code
  unit.
\<close>

type_synonym number = rat

datatype sound = MainTrack | MainPause | CuePlay string | TrapSound

record app =
  duration :: number
  selectedCues :: "string list"
  timeLeft :: number
  running :: bool
  trapMessages :: "string list"
  intervalRef :: "nat option"
  mainAudioRef :: bool
  cueScheduleRef :: "(string \<times> number) list"
  playedCuesRef :: "string set"
  cueAudioRefs :: "string set"
  timers :: "nat set"
  nextTimer :: nat
  played :: "sound list"

text \<open>
  \<open>intervalRef\<close> is \<open>None\<close> for \<open>null\<close>; \<open>mainAudioRef\<close> tells whether the reference holds an
  \<open>Audio\<close> object; \<open>cueScheduleRef\<close> is the object used as a dictionary, kept as an association
  list in insertion order (none of its keys is an array index); \<open>cueAudioRefs\<close> is the set of
  cue ids that have a cached \<open>Audio\<close> object.
\<close>

definition CUE_OPTIONS :: "(string \<times> string) list" where
  "CUE_OPTIONS =
    [(''40min'', ''40 Minutes Remaining''),
     (''30min'', ''30 Minutes Remaining''),
     (''10min'', ''10 Minutes Remaining''),
     (''5min'', ''5 Minutes Remaining''),
     (''blackout'', ''Blackout''),
     (''gameover'', ''Game Over'')]"

definition init :: app where
  "init = \<lparr> duration = 60, selectedCues = [], timeLeft = 0, running = False,
            trapMessages = [], intervalRef = None, mainAudioRef = False,
            cueScheduleRef = [], playedCuesRef = {}, cueAudioRefs = {},
            timers = {}, nextTimer = 0, played = [] \<rparr>"

subsection \<open>Handlers of the setup screen\<close>

definition handleToggleCue :: "string \<Rightarrow> app \<Rightarrow> app" where
  "handleToggleCue cueId s =
     s\<lparr>selectedCues :=
         (if cueId \<in> set (selectedCues s)
          then filter (\<lambda>i. i \<noteq> cueId) (selectedCues s)
          else selectedCues s @ [cueId])\<rparr>"

definition handleDurationChange :: "number \<Rightarrow> app \<Rightarrow> app" where
  "handleDurationChange v s = (if v > 0 then s\<lparr>duration := v\<rparr> else s)"

subsection \<open>Building the schedule\<close>

definition isDigit :: "char \<Rightarrow> bool" where
  "isDigit c = (48 \<le> (of_char c :: nat) \<and> (of_char c :: nat) \<le> 57)"

definition digitVal :: "char \<Rightarrow> int" where
  "digitVal c = of_char c - 48"

text \<open>The integer that a string of decimal digits denotes.\<close>

definition digitsValue :: "string \<Rightarrow> int" where
  "digitsValue ds = foldl (\<lambda>a c. 10 * a + digitVal c) 0 ds"

text \<open>The number of binary digits of a positive integer.\<close>

function bitLength :: "int \<Rightarrow> nat" where
  "bitLength n = (if n \<le> 0 then 0 else Suc (bitLength (n div 2)))"
  by pat_completeness auto
termination
  by (relation "measure nat") auto

declare bitLength.simps [simp del]

text \<open>
  The double-precision number nearest to a non-negative integer, ties going to the even
  significand: an integer below \<open>2^53\<close> is a double; a larger one keeps its 53 leading binary
  digits, rounded. At \<open>2^1024 - 2^970\<close> and above the browser's result is \<open>Infinity\<close>, which
  the type \<open>number\<close> does not have: there \<open>toDouble\<close> is not the browser's value, and no
  statement below is about a value in that range.
\<close>

definition toDouble :: "int \<Rightarrow> int" where
  "toDouble n =
     (if n < 2 ^ 53 then n
      else
        let e = bitLength n - 53;
            q = n div 2 ^ e;
            r = n mod 2 ^ e;
            h = 2 ^ (e - 1)
        in (if r < h \<or> (r = h \<and> even q) then q else q + 1) * 2 ^ e)"

text \<open>
  \<open>parseInt(ds, 10)\<close> on a string of decimal digits: the double nearest to the integer the
  digits denote.
\<close>

definition parseInt10 :: "string \<Rightarrow> int" where
  "parseInt10 ds = toDouble (digitsValue ds)"

text \<open>
  \<open>cueId.match(/^([0-9]+)min$/)\<close>: the longest run of digits at the start must be non-empty
  and be followed by exactly \<open>min\<close>; the result is the captured group.
\<close>

definition matchMin :: "string \<Rightarrow> string option" where
  "matchMin cueId =
     (if takeWhile isDigit cueId \<noteq> [] \<and> dropWhile isDigit cueId = ''min''
      then Some (takeWhile isDigit cueId) else None)"

text \<open>
  The names that every object inherits from \<open>Object.prototype\<close>. The audio cache is a plain
  object, so a lookup of one of these names finds the inherited member, which is truthy.
\<close>

definition objectPrototypeNames :: "string list" where
  "objectPrototypeNames =
    [''constructor'', ''hasOwnProperty'', ''isPrototypeOf'', ''propertyIsEnumerable'',
     ''toLocaleString'', ''toString'', ''valueOf'', ''__proto__'',
     ''__defineGetter__'', ''__defineSetter__'', ''__lookupGetter__'', ''__lookupSetter__'']"

text \<open>
  The body of the \<open>forEach\<close> of \<open>handleStart\<close>, on the pair (schedule, audio cache). The
  product \<open>minutes * 60\<close> is a product of doubles, rounded again. An \<open>Audio\<close> object is
  created when the lookup in the cache is falsy: the id is not cached and names no inherited
  member.
\<close>

definition startCue ::
  "string \<Rightarrow> (string \<times> number) list \<times> string set \<Rightarrow> (string \<times> number) list \<times> string set"
where
  "startCue cueId p =
     (let schedule = fst p; cache = snd p;
          schedule' =
            (if cueId = ''blackout'' then AList.update cueId 60 schedule
             else if cueId = ''gameover'' then AList.update cueId 5 schedule
             else (case matchMin cueId of
                     Some ds \<Rightarrow>
                       AList.update cueId (of_int (toDouble (parseInt10 ds * 60))) schedule
                   | None \<Rightarrow> schedule))
      in (schedule',
          if cueId \<notin> cache \<and> cueId \<notin> set objectPrototypeNames
          then insert cueId cache else cache))"

definition handleStart :: "app \<Rightarrow> app" where
  "handleStart s =
     (let totalSeconds = duration s * 60;
          p = fold startCue (selectedCues s) ([], cueAudioRefs s)
      in s\<lparr> running := True,
            timeLeft := totalSeconds,
            cueAudioRefs := snd p,
            cueScheduleRef := fst p,
            mainAudioRef := True,
            played := played s @ [MainTrack],
            intervalRef := Some (nextTimer s),
            timers := insert (nextTimer s) (timers s),
            nextTimer := Suc (nextTimer s) \<rparr>)"

subsection \<open>The countdown effect\<close>

text \<open>
  One iteration of the loop over \<open>Object.entries(cueScheduleRef.current)\<close>. The keys of a
  schedule that \<open>handleStart\<close> builds name no inherited member of the cache
  (\<open>schedule_no_prototype_name\<close> below), so the lookup of \<open>cueAudio\<close> is a lookup among the
  cached ids.
\<close>

definition fireCue :: "number \<Rightarrow> string \<times> number \<Rightarrow> app \<Rightarrow> app" where
  "fireCue t e s =
     (let cueId = fst e; triggerAt = snd e;
          shouldTrigger = (t = triggerAt);
          notPlayedYet = (cueId \<notin> playedCuesRef s)
      in if shouldTrigger \<and> notPlayedYet
         then s\<lparr> played := played s @ (if cueId \<in> cueAudioRefs s then [CuePlay cueId] else []),
                 playedCuesRef := insert cueId (playedCuesRef s) \<rparr>
         else s)"

text \<open>
  The effect with dependencies \<open>[timeLeft, running]\<close>, run on the rendered state \<open>s\<close>.
  \<open>setRunning(false)\<close> takes effect after the body has finished; the render it causes runs the
  effect once more, which returns at its first line.
\<close>

definition cueEffect :: "app \<Rightarrow> app" where
  "cueEffect s =
     (if \<not> running s then s
      else
        let s1 = (if timeLeft s = 0
                  then s\<lparr> timers := timers s - set_option (intervalRef s),
                          played := played s @ (if mainAudioRef s then [MainPause] else []) \<rparr>
                  else s);
            s2 = fold (fireCue (timeLeft s)) (cueScheduleRef s) s1
        in if timeLeft s = 0 then s2\<lparr>running := False\<rparr> else s2)"

subsection \<open>Events\<close>

text \<open>
  What can happen to a mounted component: a click on a checkbox, an edit of the duration
  field, a click on Start, the callback of interval timer \<open>i\<close> coming due, and a
  \<open>trap_triggered\<close> message on the socket. The setup controls are rendered only while
  \<open>running\<close> is false, and one checkbox is rendered for each entry of \<open>CUE_OPTIONS\<close>; an event
  on a control that is not rendered cannot occur and is modelled as leaving the state alone.
  \<open>Tick i\<close> is the task of timer \<open>i\<close> being run by the event loop; the task looks the id up
  among the installed timers first, so the callback of a timer that \<open>clearInterval\<close> has
  removed is not run, also when the task was queued before the removal.
\<close>

datatype event =
    ToggleCue string
  | DurationChange number
  | ClickStart
  | Tick nat
  | Trap string

fun handle :: "event \<Rightarrow> app \<Rightarrow> app" where
  "handle (ToggleCue c) s =
     (if \<not> running s \<and> c \<in> set (map fst CUE_OPTIONS) then handleToggleCue c s else s)"
| "handle (DurationChange v) s = (if \<not> running s then handleDurationChange v s else s)"
| "handle ClickStart s = (if \<not> running s then handleStart s else s)"
| "handle (Tick i) s = (if i \<in> timers s then s\<lparr>timeLeft := timeLeft s - 1\<rparr> else s)"
| "handle (Trap m) s =
     s\<lparr> trapMessages := trapMessages s @ [m], played := played s @ [TrapSound] \<rparr>"

text \<open>
  An event runs its handler; the component renders again, and the countdown effect runs when
  \<open>timeLeft\<close> or \<open>running\<close> differs from the previous render.
\<close>

definition step :: "event \<Rightarrow> app \<Rightarrow> app" where
  "step e s =
     (let s' = handle e s
      in if timeLeft s' \<noteq> timeLeft s \<or> running s' \<noteq> running s then cueEffect s' else s')"

definition run :: "event list \<Rightarrow> app \<Rightarrow> app" where
  "run es s = fold step es s"

definition progressPercent :: "app \<Rightarrow> number" where
  "progressPercent s =
     (if running s then (1 - timeLeft s / (duration s * 60)) * 100 else 0)"

text \<open>The sounds an event adds to the log, and the cue ids it marks as played.\<close>

definition newSounds :: "event \<Rightarrow> app \<Rightarrow> sound list" where
  "newSounds e s = drop (length (played s)) (played (step e s))"

definition firedNow :: "event \<Rightarrow> app \<Rightarrow> string set" where
  "firedNow e s = playedCuesRef (step e s) - playedCuesRef s"



text \<open>
  The facts that hold in every state the component can reach: the duration is positive; the
  installed timers are exactly the one in \<open>intervalRef\<close> while running and none otherwise;
  the schedule has one entry per key, and every key has a cached \<open>Audio\<close> object; every cue
  sound in the log belongs to a cue recorded as played, and occurs once.
\<close>

definition wellFormed :: "app \<Rightarrow> bool" where
  "wellFormed s \<longleftrightarrow>
     0 < duration s \<and>
     timers s = (if running s then set_option (intervalRef s) else {}) \<and>
     distinct (map fst (cueScheduleRef s)) \<and>
     fst ` set (cueScheduleRef s) \<subseteq> cueAudioRefs s \<and>
     (\<forall>c. CuePlay c \<in> set (played s) \<longrightarrow> c \<in> playedCuesRef s) \<and>
     (\<forall>c. count_list (played s) (CuePlay c) \<le> 1)"

text \<open>The trigger time that the body of the \<open>forEach\<close> assigns to a cue id, if any.\<close>

definition triggerOf :: "string \<Rightarrow> number option" where
  "triggerOf cueId =
     (if cueId = ''blackout'' then Some 60
      else if cueId = ''gameover'' then Some 5
      else map_option (\<lambda>ds. of_int (toDouble (parseInt10 ds * 60))) (matchMin cueId))"


text \<open>
  The effect run on successive renders that observe the values \<open>ts\<close> of \<open>timeLeft\<close>, whatever
  sequence of clock callbacks produced them.
\<close>

definition renders :: "number list \<Rightarrow> app \<Rightarrow> app" where
  "renders ts s = fold (\<lambda>t s. cueEffect (s\<lparr>timeLeft := t\<rparr>)) ts s"

text \<open>Concrete sessions used to evaluate the model: one cue selected, a one-minute countdown
  started, and \<open>n\<close> ticks of the first timer.\<close>

definition session :: "string \<Rightarrow> nat \<Rightarrow> app" where
  "session cue n = run ([ToggleCue cue, DurationChange 1, ClickStart] @ replicate n (Tick 0)) init"

section \<open>Properties\<close>

subsection \<open>The loop over the schedule\<close>

lemma fireCue_frame:
  "duration (fireCue t e s) = duration s"
  "selectedCues (fireCue t e s) = selectedCues s"
  "timeLeft (fireCue t e s) = timeLeft s"
  "running (fireCue t e s) = running s"
  "trapMessages (fireCue t e s) = trapMessages s"
  "intervalRef (fireCue t e s) = intervalRef s"
  "mainAudioRef (fireCue t e s) = mainAudioRef s"
  "cueScheduleRef (fireCue t e s) = cueScheduleRef s"
  "cueAudioRefs (fireCue t e s) = cueAudioRefs s"
  "timers (fireCue t e s) = timers s"
  "nextTimer (fireCue t e s) = nextTimer s"
  by (simp_all add: fireCue_def Let_def)

lemma loop_frame:
  "duration (fold (fireCue t) xs s) = duration s"
  "selectedCues (fold (fireCue t) xs s) = selectedCues s"
  "timeLeft (fold (fireCue t) xs s) = timeLeft s"
  "running (fold (fireCue t) xs s) = running s"
  "trapMessages (fold (fireCue t) xs s) = trapMessages s"
  "intervalRef (fold (fireCue t) xs s) = intervalRef s"
  "mainAudioRef (fold (fireCue t) xs s) = mainAudioRef s"
  "cueScheduleRef (fold (fireCue t) xs s) = cueScheduleRef s"
  "cueAudioRefs (fold (fireCue t) xs s) = cueAudioRefs s"
  "timers (fold (fireCue t) xs s) = timers s"
  "nextTimer (fold (fireCue t) xs s) = nextTimer s"
  by (induction xs arbitrary: s; simp add: fireCue_frame)+

lemma fireCue_playedCuesRef:
  "playedCuesRef (fireCue t e s) =
     (if t = snd e then insert (fst e) (playedCuesRef s) else playedCuesRef s)"
  by (auto simp: fireCue_def Let_def)

lemma loop_playedCuesRef:
  "playedCuesRef (fold (fireCue t) xs s) = playedCuesRef s \<union> {c. (c, t) \<in> set xs}"
proof (induction xs arbitrary: s)
  case Nil
  show ?case by simp
next
  case (Cons x xs)
  show ?case
    by (cases x) (auto simp: Cons.IH fireCue_playedCuesRef)
qed

lemma fireCue_played:
  "played (fireCue t e s) =
     played s @ (if t = snd e \<and> fst e \<notin> playedCuesRef s \<and> fst e \<in> cueAudioRefs s
                 then [CuePlay (fst e)] else [])"
  by (simp add: fireCue_def Let_def)

lemma loop_played:
  "\<exists>ys. played (fold (fireCue t) xs s) = played s @ ys \<and> distinct ys \<and>
        set ys = {CuePlay c | c. (c, t) \<in> set xs \<and> c \<notin> playedCuesRef s \<and> c \<in> cueAudioRefs s}"
proof (induction xs arbitrary: s)
  case Nil
  show ?case by simp
next
  case (Cons x xs)
  obtain c0 T0 where x: "x = (c0, T0)" by (cases x)
  let ?s' = "fireCue t x s"
  from Cons.IH [of ?s'] obtain ys where
    ys: "played (fold (fireCue t) xs ?s') = played ?s' @ ys" "distinct ys"
      "set ys = {CuePlay c | c. (c, t) \<in> set xs \<and> c \<notin> playedCuesRef ?s' \<and> c \<in> cueAudioRefs ?s'}"
    by blast
  let ?y0 = "if t = T0 \<and> c0 \<notin> playedCuesRef s \<and> c0 \<in> cueAudioRefs s then [CuePlay c0] else []"
  have p: "played ?s' = played s @ ?y0"
    by (simp add: fireCue_played x)
  have d: "distinct (?y0 @ ys)"
    using ys(2) ys(3) by (auto simp: fireCue_playedCuesRef x)
  have e: "set (?y0 @ ys) =
      {CuePlay c | c. (c, t) \<in> set (x # xs) \<and> c \<notin> playedCuesRef s \<and> c \<in> cueAudioRefs s}"
    unfolding set_append ys(3) by (auto simp: fireCue_playedCuesRef fireCue_frame x)
  have "played (fold (fireCue t) (x # xs) s) = played s @ (?y0 @ ys)"
    using ys(1) p by simp
  with d e show ?case by blast
qed


subsection \<open>The effect\<close>

lemma cueEffect_frame:
  "duration (cueEffect s) = duration s"
  "selectedCues (cueEffect s) = selectedCues s"
  "timeLeft (cueEffect s) = timeLeft s"
  "trapMessages (cueEffect s) = trapMessages s"
  "intervalRef (cueEffect s) = intervalRef s"
  "mainAudioRef (cueEffect s) = mainAudioRef s"
  "cueScheduleRef (cueEffect s) = cueScheduleRef s"
  "cueAudioRefs (cueEffect s) = cueAudioRefs s"
  "nextTimer (cueEffect s) = nextTimer s"
  by (simp_all add: cueEffect_def Let_def loop_frame)

lemma cueEffect_running: "running (cueEffect s) = (running s \<and> timeLeft s \<noteq> 0)"
  by (simp add: cueEffect_def Let_def loop_frame)

lemma cueEffect_timers:
  "timers (cueEffect s) =
     (if running s \<and> timeLeft s = 0 then timers s - set_option (intervalRef s) else timers s)"
  by (simp add: cueEffect_def Let_def loop_frame)

lemma cueEffect_playedCuesRef:
  "playedCuesRef (cueEffect s) =
     (if running s then playedCuesRef s \<union> {c. (c, timeLeft s) \<in> set (cueScheduleRef s)}
      else playedCuesRef s)"
  by (simp add: cueEffect_def Let_def loop_playedCuesRef)

lemma cueEffect_played:
  "\<exists>ys. played (cueEffect s) =
          played s @ (if running s \<and> timeLeft s = 0 \<and> mainAudioRef s then [MainPause] else []) @ ys \<and>
        distinct ys \<and>
        set ys = {CuePlay c | c. running s \<and> (c, timeLeft s) \<in> set (cueScheduleRef s) \<and>
                                 c \<notin> playedCuesRef s \<and> c \<in> cueAudioRefs s}"
proof (cases "running s")
  case False
  then show ?thesis by (simp add: cueEffect_def)
next
  case True
  let ?s1 = "if timeLeft s = 0
             then s\<lparr> timers := timers s - set_option (intervalRef s),
                     played := played s @ (if mainAudioRef s then [MainPause] else []) \<rparr>
             else s"
  from loop_played [of "timeLeft s" "cueScheduleRef s" ?s1] obtain ys where
    ys: "played (fold (fireCue (timeLeft s)) (cueScheduleRef s) ?s1) = played ?s1 @ ys"
        "distinct ys"
        "set ys = {CuePlay c | c. (c, timeLeft s) \<in> set (cueScheduleRef s) \<and>
                                  c \<notin> playedCuesRef ?s1 \<and> c \<in> cueAudioRefs ?s1}"
    by blast
  have "played (cueEffect s) =
          played s @ (if running s \<and> timeLeft s = 0 \<and> mainAudioRef s then [MainPause] else []) @ ys"
    using True ys(1)
    by (cases "timeLeft s = 0"; cases "mainAudioRef s"; simp add: cueEffect_def Let_def)
  moreover have "set ys = {CuePlay c | c. running s \<and> (c, timeLeft s) \<in> set (cueScheduleRef s) \<and>
                                 c \<notin> playedCuesRef s \<and> c \<in> cueAudioRefs s}"
    using True ys(3) by (cases "timeLeft s = 0"; simp)
  ultimately show ?thesis using ys(2) by blast
qed

subsection \<open>Handlers\<close>

lemma handle_playedCuesRef: "playedCuesRef (handle e s) = playedCuesRef s"
  by (cases e) (simp_all add: handleToggleCue_def handleDurationChange_def handleStart_def Let_def)

lemma handle_trapMessages:
  "trapMessages (handle e s) = trapMessages s @ (case e of Trap m \<Rightarrow> [m] | _ \<Rightarrow> [])"
  by (cases e) (simp_all add: handleToggleCue_def handleDurationChange_def handleStart_def Let_def)

lemma handle_played:
  "played (handle e s) =
     played s @ (case e of ClickStart \<Rightarrow> if running s then [] else [MainTrack]
                 | Trap m \<Rightarrow> [TrapSound] | _ \<Rightarrow> [])"
  by (cases e) (simp_all add: handleToggleCue_def handleDurationChange_def handleStart_def Let_def)

lemma handle_duration:
  "duration (handle e s) =
     (case e of DurationChange v \<Rightarrow> if \<not> running s \<and> v > 0 then v else duration s
      | _ \<Rightarrow> duration s)"
  by (cases e) (simp_all add: handleToggleCue_def handleDurationChange_def handleStart_def Let_def)

subsection \<open>One event\<close>

lemma step_cases:
  "step e s = handle e s \<or> step e s = cueEffect (handle e s)"
  by (simp add: step_def Let_def)

lemma step_frame:
  "duration (step e s) = duration (handle e s)"
  "selectedCues (step e s) = selectedCues (handle e s)"
  "timeLeft (step e s) = timeLeft (handle e s)"
  "trapMessages (step e s) = trapMessages (handle e s)"
  "intervalRef (step e s) = intervalRef (handle e s)"
  "mainAudioRef (step e s) = mainAudioRef (handle e s)"
  "cueScheduleRef (step e s) = cueScheduleRef (handle e s)"
  "cueAudioRefs (step e s) = cueAudioRefs (handle e s)"
  "nextTimer (step e s) = nextTimer (handle e s)"
  by (simp_all add: step_def Let_def cueEffect_frame)

lemma step_playedCuesRef_mono: "playedCuesRef s \<subseteq> playedCuesRef (step e s)"
  using step_cases [of e s] by (auto simp: cueEffect_playedCuesRef handle_playedCuesRef)

lemma step_playedCuesRef_new:
  assumes "c \<in> playedCuesRef (step e s)" "c \<notin> playedCuesRef s"
  shows "step e s = cueEffect (handle e s) \<and> running (handle e s) \<and>
         (c, timeLeft (step e s)) \<in> set (cueScheduleRef (step e s))"
proof -
  have ne: "step e s \<noteq> handle e s"
    using assms by (auto simp: handle_playedCuesRef)
  with step_cases [of e s] have eq: "step e s = cueEffect (handle e s)" by blast
  from assms show ?thesis
    unfolding eq
    by (auto simp: cueEffect_playedCuesRef cueEffect_frame handle_playedCuesRef split: if_splits)
qed

lemma step_played:
  "\<exists>zs. played (step e s) = played s @ zs \<and> distinct zs \<and>
        (\<forall>c. CuePlay c \<in> set zs \<longrightarrow> c \<notin> playedCuesRef s \<and> c \<in> playedCuesRef (step e s))"
proof -
  let ?hs = "case e of ClickStart \<Rightarrow> if running s then [] else [MainTrack]
                 | Trap m \<Rightarrow> [TrapSound] | _ \<Rightarrow> []"
  let ?h = "handle e s"
  have hs: "distinct ?hs" "\<forall>c. CuePlay c \<notin> set ?hs" "MainPause \<notin> set ?hs"
    by (cases e; simp)+
  from step_cases [of e s] show ?thesis
  proof
    assume eq: "step e s = handle e s"
    then have "played (step e s) = played s @ ?hs" by (simp add: handle_played)
    with hs show ?thesis by blast
  next
    assume eq: "step e s = cueEffect (handle e s)"
    from cueEffect_played [of ?h] obtain ys where
      ys: "played (cueEffect ?h) =
             played ?h @ (if running ?h \<and> timeLeft ?h = 0 \<and> mainAudioRef ?h then [MainPause] else []) @ ys"
          "distinct ys"
          "set ys = {CuePlay c | c. running ?h \<and> (c, timeLeft ?h) \<in> set (cueScheduleRef ?h) \<and>
                                 c \<notin> playedCuesRef ?h \<and> c \<in> cueAudioRefs ?h}"
      by blast
    let ?ps = "if running ?h \<and> timeLeft ?h = 0 \<and> mainAudioRef ?h then [MainPause] else []"
    let ?zs = "?hs @ ?ps @ ys"
    have a: "played (step e s) = played s @ ?zs"
      unfolding eq ys(1) by (simp add: handle_played)
    have "set ?hs \<inter> set ys = {}" "set ?ps \<inter> set ys = {}" "set ?hs \<inter> set ?ps = {}"
      using ys(3) hs by (cases e; auto)+
    then have b: "distinct ?zs"
      using hs(1) ys(2) by (auto simp: Int_Un_distrib)
    have c: "\<forall>c. CuePlay c \<in> set ?zs \<longrightarrow> c \<notin> playedCuesRef s \<and> c \<in> playedCuesRef (step e s)"
      using hs(2) ys(3) unfolding eq
      by (auto simp: cueEffect_playedCuesRef handle_playedCuesRef split: if_splits)
    from a b c show ?thesis by blast
  qed
qed

subsection \<open>Matching and parsing cue ids\<close>

lemma isDigit_m [simp]: "\<not> isDigit CHR ''m''"
  by (simp add: isDigit_def)









text \<open>
  Rounding at work: \<open>2^53 + 1\<close> and \<open>2^53 + 3\<close> are ties and go to the even significand,
  and \<open>10^23\<close> is the double that the browser prints as \<open>1e+23\<close>.
\<close>

lemma toDouble_rounds:
  "toDouble 9007199254740993 = 9007199254740992"
  "toDouble 9007199254740995 = 9007199254740996"
  "toDouble 100000000000000000000000 = 99999999999999991611392"
  by code_simp+



subsection \<open>The schedule built by \<open>handleStart\<close>\<close>

lemma startCue_triggerOf:
  "startCue x p =
     ((case triggerOf x of Some t \<Rightarrow> AList.update x t (fst p) | None \<Rightarrow> fst p),
      (if x \<notin> snd p \<and> x \<notin> set objectPrototypeNames then insert x (snd p) else snd p))"
  by (simp add: startCue_def triggerOf_def Let_def split: option.splits)

lemma startCue_lookup:
  "map_of (fst (startCue x p)) c =
     (if c = x \<and> triggerOf x \<noteq> None then triggerOf x else map_of (fst p) c)"
  by (cases "triggerOf x") (simp_all add: startCue_triggerOf update_conv')

lemma startCue_keys:
  "fst ` set (fst (startCue x p)) \<subseteq> {c. c = x \<and> triggerOf x \<noteq> None} \<union> fst ` set (fst p)"
  by (cases "triggerOf x") (auto simp: startCue_triggerOf dom_update)

lemma triggerOf_prototype_names: "list_all (\<lambda>x. triggerOf x = None) objectPrototypeNames"
  by code_simp

lemma triggerOf_not_prototype: "triggerOf x \<noteq> None \<Longrightarrow> x \<notin> set objectPrototypeNames"
  using triggerOf_prototype_names by (auto simp: list_all_iff)

lemma startCue_cache:
  "snd p \<subseteq> snd (startCue x p)"
  "triggerOf x \<noteq> None \<Longrightarrow> x \<in> snd (startCue x p)"
  using triggerOf_not_prototype [of x] by (auto simp: startCue_triggerOf)

lemma startCue_distinct:
  "distinct (map fst (fst p)) \<Longrightarrow> distinct (map fst (fst (startCue x p)))"
  by (cases "triggerOf x") (simp_all add: startCue_triggerOf distinct_update)

lemma build_distinct:
  "distinct (map fst (fst p)) \<Longrightarrow> distinct (map fst (fst (fold startCue xs p)))"
  by (induction xs arbitrary: p) (simp_all add: startCue_distinct)

lemma build_cached:
  "fst ` set (fst p) \<subseteq> snd p \<Longrightarrow>
   fst ` set (fst (fold startCue xs p)) \<subseteq> snd (fold startCue xs p)"
proof (induction xs arbitrary: p)
  case Nil
  then show ?case by simp
next
  case (Cons x xs)
  have "fst ` set (fst (startCue x p)) \<subseteq> snd (startCue x p)"
  proof -
    have "fst ` set (fst (startCue x p)) \<subseteq>
            {c. c = x \<and> triggerOf x \<noteq> None} \<union> fst ` set (fst p)"
      by (rule startCue_keys)
    also have "\<dots> \<subseteq> snd (startCue x p)"
      using Cons.prems startCue_cache [where p = p and x = x] by blast
    finally show ?thesis .
  qed
  then show ?case using Cons.IH by simp
qed

lemma build_lookup:
  "map_of (fst p) c = None \<or> map_of (fst p) c = triggerOf c \<Longrightarrow>
   map_of (fst (fold startCue xs p)) c =
     (if c \<in> set xs then triggerOf c else map_of (fst p) c)"
proof (induction xs arbitrary: p)
  case Nil
  show ?case by simp
next
  case (Cons x xs)
  have "map_of (fst (startCue x p)) c = None \<or> map_of (fst (startCue x p)) c = triggerOf c"
    using Cons.prems by (auto simp: startCue_lookup)
  from Cons.IH [OF this] show ?case
    using Cons.prems by (auto simp: startCue_lookup)
qed

lemma handleStart_lookup:
  "map_of (cueScheduleRef (handleStart s)) c =
     (if c \<in> set (selectedCues s) then triggerOf c else None)"
  using build_lookup [of "([], cueAudioRefs s)" c "selectedCues s"]
  by (simp add: handleStart_def Let_def)


subsection \<open>Sequences of events\<close>

lemma run_Nil: "run [] s = s"
  by (simp add: run_def)

lemma run_Cons: "run (e # es) s = run es (step e s)"
  by (simp add: run_def)

lemma run_snoc: "run (es @ [e]) s = step e (run es s)"
  by (simp add: run_def)

lemma step_trapMessages:
  "trapMessages (step e s) = trapMessages s @ (case e of Trap m \<Rightarrow> [m] | _ \<Rightarrow> [])"
  by (simp add: step_frame handle_trapMessages)

lemma run_trapMessages:
  "trapMessages (run es s) =
     trapMessages s @ concat (map (\<lambda>e. case e of Trap m \<Rightarrow> [m] | _ \<Rightarrow> []) es)"
  by (induction es arbitrary: s) (simp_all add: run_Nil run_Cons step_trapMessages)

lemma step_Trap: "step (Trap m) s = s\<lparr> trapMessages := trapMessages s @ [m], played := played s @ [TrapSound] \<rparr>"
  by (simp add: step_def)





lemma schedule_no_prototype_name:
  "c \<in> set objectPrototypeNames \<Longrightarrow> map_of (cueScheduleRef (handleStart s)) c = None"
  using triggerOf_not_prototype [of c] by (cases "triggerOf c") (simp_all add: handleStart_lookup)




text \<open>
  Claim C8. In every state, running or not, a trap event appends its message to the end of
  \<open>trapMessages\<close> and plays the trap sound, and changes neither \<open>running\<close> nor \<open>timeLeft\<close>.
  No other event changes \<open>trapMessages\<close>, so after any sequence of events the log is the old
  log followed by the messages of the trap events, in order: starts and finished countdowns
  never clear it.
\<close>
theorem trap_log_append_only:
  "trapMessages (step (Trap m) s) = trapMessages s @ [m] \<and>
   played (step (Trap m) s) = played s @ [TrapSound] \<and>
   running (step (Trap m) s) = running s \<and>
   timeLeft (step (Trap m) s) = timeLeft s \<and>
   trapMessages (step e s) = trapMessages s @ (case e of Trap x \<Rightarrow> [x] | _ \<Rightarrow> []) \<and>
   trapMessages (run es s) =
     trapMessages s @ concat (map (\<lambda>e. case e of Trap x \<Rightarrow> [x] | _ \<Rightarrow> []) es)"
proof -
  have "trapMessages (step (Trap m) s) = trapMessages s @ [m]"
    "played (step (Trap m) s) = played s @ [TrapSound]"
    "running (step (Trap m) s) = running s"
    "timeLeft (step (Trap m) s) = timeLeft s"
    by (simp_all add: step_Trap)
  then show ?thesis
    using step_trapMessages [of e s] run_trapMessages [of es s] by blast
qed

text \<open>A trap event in the initial, idle state; and two of them around a start and a tick.\<close>

theorem trap_log_append_only_witness:
  "trapMessages (step (Trap ''door'') init) = [''door''] \<and>
   played (step (Trap ''door'') init) = [TrapSound] \<and>
   \<not> running (step (Trap ''door'') init) \<and>
   trapMessages (run [Trap ''a'', ClickStart, Tick 0, Trap ''b''] init) = [''a'', ''b'']"
  using trap_log_append_only [of "''door''" init ClickStart "[Trap ''a'', ClickStart, Tick 0, Trap ''b'']"]
  by (simp add: init_def)

subsection \<open>Invariants of the reachable states\<close>

lemma handle_timers_inv:
  assumes "timers s = (if running s then set_option (intervalRef s) else {})"
  shows "timers (handle e s) =
           (if running (handle e s) then set_option (intervalRef (handle e s)) else {})"
  using assms
  by (cases e) (simp_all add: handleToggleCue_def handleDurationChange_def handleStart_def Let_def)

lemma cueEffect_timers_inv:
  assumes "timers s = (if running s then set_option (intervalRef s) else {})"
  shows "timers (cueEffect s) =
           (if running (cueEffect s) then set_option (intervalRef (cueEffect s)) else {})"
  using assms by (simp add: cueEffect_timers cueEffect_running cueEffect_frame)

lemma handle_schedule_inv:
  assumes "distinct (map fst (cueScheduleRef s))" "fst ` set (cueScheduleRef s) \<subseteq> cueAudioRefs s"
  shows "distinct (map fst (cueScheduleRef (handle e s)))"
    and "fst ` set (cueScheduleRef (handle e s)) \<subseteq> cueAudioRefs (handle e s)"
proof -
  have d: "distinct (map fst (cueScheduleRef (handleStart s)))"
    using build_distinct [of "([], cueAudioRefs s)" "selectedCues s"]
    by (simp add: handleStart_def Let_def)
  have c: "fst ` set (cueScheduleRef (handleStart s)) \<subseteq> cueAudioRefs (handleStart s)"
    using build_cached [of "([], cueAudioRefs s)" "selectedCues s"]
    by (simp add: handleStart_def Let_def)
  show "distinct (map fst (cueScheduleRef (handle e s)))"
    using assms(1) d by (cases e) (simp_all add: handleToggleCue_def handleDurationChange_def)
  show "fst ` set (cueScheduleRef (handle e s)) \<subseteq> cueAudioRefs (handle e s)"
    using assms(2) c by (cases e) (simp_all add: handleToggleCue_def handleDurationChange_def)
qed

lemma handle_duration_pos: "0 < duration s \<Longrightarrow> 0 < duration (handle e s)"
  by (simp add: handle_duration split: event.split)

lemma distinct_count_le_1: "distinct xs \<Longrightarrow> count_list xs x \<le> 1"
  by (induction xs) auto

lemma step_played_inv:
  assumes p: "\<forall>c. CuePlay c \<in> set (played s) \<longrightarrow> c \<in> playedCuesRef s"
      and q: "\<forall>c. count_list (played s) (CuePlay c) \<le> 1"
  shows "\<forall>c. CuePlay c \<in> set (played (step e s)) \<longrightarrow> c \<in> playedCuesRef (step e s)"
    and "\<forall>c. count_list (played (step e s)) (CuePlay c) \<le> 1"
proof -
  from step_played [of e s] obtain zs where
    zs: "played (step e s) = played s @ zs" "distinct zs"
        "\<forall>c. CuePlay c \<in> set zs \<longrightarrow> c \<notin> playedCuesRef s \<and> c \<in> playedCuesRef (step e s)"
    by blast
  show "\<forall>c. CuePlay c \<in> set (played (step e s)) \<longrightarrow> c \<in> playedCuesRef (step e s)"
    using p zs(1) zs(3) step_playedCuesRef_mono [of s e] by auto
  show "\<forall>c. count_list (played (step e s)) (CuePlay c) \<le> 1"
  proof
    fix c
    have z: "count_list zs (CuePlay c) \<le> 1"
      using zs(2) by (rule distinct_count_le_1)
    show "count_list (played (step e s)) (CuePlay c) \<le> 1"
    proof (cases "CuePlay c \<in> set zs")
      case True
      with zs(3) p have "CuePlay c \<notin> set (played s)" by blast
      then show ?thesis using z by (simp add: zs(1))
    next
      case False
      then show ?thesis using q by (simp add: zs(1))
    qed
  qed
qed

lemma wellFormed_init: "wellFormed init"
  by (simp add: wellFormed_def init_def)

lemma wellFormed_step:
  assumes "wellFormed s"
  shows "wellFormed (step e s)"
proof -
  let ?h = "handle e s"
  from assms have a:
    "0 < duration s"
    "timers s = (if running s then set_option (intervalRef s) else {})"
    "distinct (map fst (cueScheduleRef s))"
    "fst ` set (cueScheduleRef s) \<subseteq> cueAudioRefs s"
    "\<forall>c. CuePlay c \<in> set (played s) \<longrightarrow> c \<in> playedCuesRef s"
    "\<forall>c. count_list (played s) (CuePlay c) \<le> 1"
    by (simp_all add: wellFormed_def)
  have 1: "0 < duration (step e s)"
    using a(1) by (simp add: step_frame handle_duration_pos)
  have 2: "timers (step e s) =
             (if running (step e s) then set_option (intervalRef (step e s)) else {})"
    using step_cases [of e s] handle_timers_inv [OF a(2), of e]
      cueEffect_timers_inv [of ?h] by auto
  have 3: "distinct (map fst (cueScheduleRef (step e s)))"
    using handle_schedule_inv(1) [OF a(3) a(4)] by (simp add: step_frame)
  have 4: "fst ` set (cueScheduleRef (step e s)) \<subseteq> cueAudioRefs (step e s)"
    using handle_schedule_inv(2) [OF a(3) a(4)] by (simp add: step_frame)
  note 5 = step_played_inv [OF a(5) a(6), of e]
  from 1 2 3 4 5 show ?thesis
    unfolding wellFormed_def by blast
qed

lemma wellFormed_run: "wellFormed s \<Longrightarrow> wellFormed (run es s)"
  by (induction es arbitrary: s) (simp_all add: run_Nil run_Cons wellFormed_step)

lemma wellFormed_reachable: "wellFormed (run es init)"
  by (rule wellFormed_run [OF wellFormed_init])

subsection \<open>What one event adds\<close>

lemma newSounds_eq:
  assumes "played (step e s) = played s @ zs"
  shows "newSounds e s = zs"
  using assms by (simp add: newSounds_def)

lemma newSounds_props:
  "distinct (newSounds e s) \<and>
   (\<forall>c. CuePlay c \<in> set (newSounds e s) \<longrightarrow> c \<notin> playedCuesRef s \<and> c \<in> playedCuesRef (step e s))"
proof -
  from step_played [of e s] obtain zs where
    zs: "played (step e s) = played s @ zs" "distinct zs"
        "\<forall>c. CuePlay c \<in> set zs \<longrightarrow> c \<notin> playedCuesRef s \<and> c \<in> playedCuesRef (step e s)"
    by blast
  from newSounds_eq [OF zs(1)] zs(2,3) show ?thesis by simp
qed

lemma run_playedCuesRef_mono: "playedCuesRef s \<subseteq> playedCuesRef (run es s)"
proof (induction es arbitrary: s)
  case Nil
  show ?case by (simp add: run_Nil)
next
  case (Cons e es)
  have "playedCuesRef s \<subseteq> playedCuesRef (step e s)" by (rule step_playedCuesRef_mono)
  also have "\<dots> \<subseteq> playedCuesRef (run es (step e s))" by (rule Cons.IH)
  finally show ?case by (simp add: run_Cons)
qed

lemma run_played:
  "\<exists>zs. played (run es s) = played s @ zs \<and>
        (\<forall>c. CuePlay c \<in> set zs \<longrightarrow> c \<notin> playedCuesRef s)"
proof (induction es arbitrary: s)
  case Nil
  show ?case by (simp add: run_Nil)
next
  case (Cons e es)
  from step_played [of e s] obtain zs where
    zs: "played (step e s) = played s @ zs"
        "\<forall>c. CuePlay c \<in> set zs \<longrightarrow> c \<notin> playedCuesRef s \<and> c \<in> playedCuesRef (step e s)"
    by blast
  from Cons.IH [of "step e s"] obtain ws where
    ws: "played (run es (step e s)) = played (step e s) @ ws"
        "\<forall>c. CuePlay c \<in> set ws \<longrightarrow> c \<notin> playedCuesRef (step e s)"
    by blast
  have "played (run (e # es) s) = played s @ (zs @ ws)"
    using zs(1) ws(1) by (simp add: run_Cons)
  moreover have "\<forall>c. CuePlay c \<in> set (zs @ ws) \<longrightarrow> c \<notin> playedCuesRef s"
    using zs(2) ws(2) step_playedCuesRef_mono [of s e] by auto
  ultimately show ?case by blast
qed

text \<open>
  Claim C3. A cue id fires at most once. Once an id is in \<open>playedCuesRef\<close> it stays there and
  no later event plays its sound again; an id enters \<open>playedCuesRef\<close> only on an event whose
  render observes a \<open>timeLeft\<close> equal to the trigger time of that id in the schedule; one event
  plays a cue sound at most once, and so does a whole session.
\<close>
theorem cue_fires_at_most_once:
  "(c \<in> playedCuesRef s \<longrightarrow>
      c \<in> playedCuesRef (run es s) \<and>
      CuePlay c \<notin> set (newSounds e s) \<and>
      CuePlay c \<notin> set (drop (length (played s)) (played (run es s)))) \<and>
   (c \<in> firedNow e s \<longrightarrow>
      (c, timeLeft (step e s)) \<in> set (cueScheduleRef (step e s))) \<and>
   count_list (newSounds e s) (CuePlay c) \<le> 1 \<and>
   count_list (played (run es init)) (CuePlay c) \<le> 1"
proof -
  have 1: "c \<in> playedCuesRef (run es s)" "CuePlay c \<notin> set (newSounds e s)"
     "CuePlay c \<notin> set (drop (length (played s)) (played (run es s)))"
    if c: "c \<in> playedCuesRef s"
  proof -
    show "c \<in> playedCuesRef (run es s)"
      using c run_playedCuesRef_mono [of s es] by blast
    show "CuePlay c \<notin> set (newSounds e s)"
      using c newSounds_props [of e s] by blast
    from run_played [of es s] obtain zs where
      zs: "played (run es s) = played s @ zs"
          "\<forall>c. CuePlay c \<in> set zs \<longrightarrow> c \<notin> playedCuesRef s"
      by blast
    then show "CuePlay c \<notin> set (drop (length (played s)) (played (run es s)))"
      using c by auto
  qed
  have 2: "(c, timeLeft (step e s)) \<in> set (cueScheduleRef (step e s))"
    if "c \<in> firedNow e s"
    using that step_playedCuesRef_new [of c e s] unfolding firedNow_def by blast
  have 3: "count_list (newSounds e s) (CuePlay c) \<le> 1"
    using newSounds_props [of e s] distinct_count_le_1 [of "newSounds e s" "CuePlay c"] by blast
  have 4: "count_list (played (run es init)) (CuePlay c) \<le> 1"
    using wellFormed_reachable [of es] by (simp add: wellFormed_def)
  from 1 2 3 4 show ?thesis by blast
qed

text \<open>
  With \<open>blackout\<close> selected and a one-minute duration, the cue enters the set on the click on
  Start (60 seconds left), and the first tick does not play it again.
\<close>

theorem cue_fires_at_most_once_witness:
  "''blackout'' \<in> playedCuesRef (run [ToggleCue ''blackout'', DurationChange 1, ClickStart] init) \<and>
   CuePlay ''blackout'' \<notin> set (newSounds (Tick 0)
       (run [ToggleCue ''blackout'', DurationChange 1, ClickStart] init)) \<and>
   ''blackout'' \<in> firedNow ClickStart (run [ToggleCue ''blackout'', DurationChange 1] init) \<and>
   (''blackout'', timeLeft (step ClickStart (run [ToggleCue ''blackout'', DurationChange 1] init)))
      \<in> set (cueScheduleRef (step ClickStart (run [ToggleCue ''blackout'', DurationChange 1] init)))"
proof -
  have a: "''blackout'' \<in> playedCuesRef (run [ToggleCue ''blackout'', DurationChange 1, ClickStart] init)"
    by code_simp
  have b: "''blackout'' \<in> firedNow ClickStart (run [ToggleCue ''blackout'', DurationChange 1] init)"
    by code_simp
  from cue_fires_at_most_once
         [of "''blackout''" "run [ToggleCue ''blackout'', DurationChange 1, ClickStart] init" "[]" "Tick 0"]
       cue_fires_at_most_once
         [of "''blackout''" "run [ToggleCue ''blackout'', DurationChange 1] init" "[]" ClickStart]
       a b
  show ?thesis by blast
qed

subsection \<open>The exact-match law\<close>

lemma step_Tick:
  assumes "i \<in> timers s"
  shows "step (Tick i) s = cueEffect (s\<lparr>timeLeft := timeLeft s - 1\<rparr>)"
  using assms by (simp add: step_def)

lemma step_Tick_stale:
  assumes "i \<notin> timers s"
  shows "step (Tick i) s = s"
  using assms by (simp add: step_def)

lemma entry_iff:
  assumes "distinct (map fst xs)" "map_of xs c = Some T"
  shows "(c, t) \<in> set xs \<longleftrightarrow> t = T"
proof -
  have "(c, t) \<in> set xs \<longleftrightarrow> map_of xs c = Some t"
    using assms(1) by simp
  then show ?thesis using assms(2) by auto
qed

lemma cueEffect_fires_iff:
  assumes "distinct (map fst (cueScheduleRef s))" "map_of (cueScheduleRef s) c = Some T"
  shows "c \<in> playedCuesRef (cueEffect s) - playedCuesRef s \<longleftrightarrow>
           running s \<and> timeLeft s = T \<and> c \<notin> playedCuesRef s"
  using entry_iff [OF assms, of "timeLeft s"] by (auto simp: cueEffect_playedCuesRef)

lemma cueEffect_sound_iff:
  assumes "distinct (map fst (cueScheduleRef s))" "map_of (cueScheduleRef s) c = Some T"
    "fst ` set (cueScheduleRef s) \<subseteq> cueAudioRefs s"
  shows "CuePlay c \<in> set (drop (length (played s)) (played (cueEffect s))) \<longleftrightarrow>
           running s \<and> timeLeft s = T \<and> c \<notin> playedCuesRef s"
proof -
  from cueEffect_played [of s] obtain ys where
    ys: "played (cueEffect s) =
          played s @ (if running s \<and> timeLeft s = 0 \<and> mainAudioRef s then [MainPause] else []) @ ys"
        "set ys = {CuePlay c | c. running s \<and> (c, timeLeft s) \<in> set (cueScheduleRef s) \<and>
                                 c \<notin> playedCuesRef s \<and> c \<in> cueAudioRefs s}"
    by blast
  have mem: "(c, T) \<in> set (cueScheduleRef s)"
    using entry_iff [OF assms(1,2), of T] by simp
  then have cached: "c \<in> cueAudioRefs s"
    using assms(3) by force
  have "CuePlay c \<in> set (drop (length (played s)) (played (cueEffect s))) \<longleftrightarrow> CuePlay c \<in> set ys"
    unfolding ys(1) by simp
  also have "\<dots> \<longleftrightarrow> running s \<and> (c, timeLeft s) \<in> set (cueScheduleRef s) \<and> c \<notin> playedCuesRef s"
    unfolding ys(2) using cached by auto
  also have "\<dots> \<longleftrightarrow> running s \<and> timeLeft s = T \<and> c \<notin> playedCuesRef s"
    using entry_iff [OF assms(1,2), of "timeLeft s"] by simp
  finally show ?thesis .
qed

lemma renders_Nil: "renders [] s = s"
  by (simp add: renders_def)

lemma renders_Cons: "renders (t # ts) s = renders ts (cueEffect (s\<lparr>timeLeft := t\<rparr>))"
  by (simp add: renders_def)

lemma renders_never_fires:
  assumes "distinct (map fst (cueScheduleRef s))" "map_of (cueScheduleRef s) c = Some T"
    "c \<notin> playedCuesRef s" "T \<notin> set ts"
  shows "c \<notin> playedCuesRef (renders ts s)"
  using assms
proof (induction ts arbitrary: s)
  case Nil
  then show ?case by (simp add: renders_Nil)
next
  case (Cons t ts)
  let ?s' = "cueEffect (s\<lparr>timeLeft := t\<rparr>)"
  have sch: "cueScheduleRef ?s' = cueScheduleRef s"
    by (simp add: cueEffect_frame)
  have "c \<notin> playedCuesRef ?s'"
    using Cons.prems(3,4) entry_iff [OF Cons.prems(1,2), of t]
    by (auto simp: cueEffect_playedCuesRef)
  with Cons.IH [of ?s'] Cons.prems show ?case
    by (simp add: renders_Cons sch)
qed

text \<open>
  Claim C5. In a reachable running state, for a cue scheduled at \<open>T\<close>, a tick fires the cue
  (marks it as played, and plays its sound) if and only if the tick sets \<open>timeLeft\<close> to \<open>T\<close>
  and the cue is not yet in \<open>playedCuesRef\<close>; in particular it does not fire when the tick
  sets \<open>timeLeft\<close> to \<open>T + 1\<close> or \<open>T - 1\<close>. If the renders of a run observe values of
  \<open>timeLeft\<close> none of which is \<open>T\<close>, the cue is never fired.
\<close>
theorem exact_match_firing:
  "(running (run es init) \<and> i \<in> timers (run es init) \<and>
    map_of (cueScheduleRef (run es init)) c = Some T \<longrightarrow>
      (c \<in> firedNow (Tick i) (run es init) \<longleftrightarrow>
         timeLeft (run es init) - 1 = T \<and> c \<notin> playedCuesRef (run es init)) \<and>
      (CuePlay c \<in> set (newSounds (Tick i) (run es init)) \<longleftrightarrow>
         timeLeft (run es init) - 1 = T \<and> c \<notin> playedCuesRef (run es init)) \<and>
      (timeLeft (run es init) - 1 = T + 1 \<or> timeLeft (run es init) - 1 = T - 1 \<longrightarrow>
         c \<notin> firedNow (Tick i) (run es init))) \<and>
   (distinct (map fst (cueScheduleRef s)) \<and> map_of (cueScheduleRef s) c = Some T \<and>
    c \<notin> playedCuesRef s \<and> T \<notin> set ts \<longrightarrow>
      c \<notin> playedCuesRef (renders ts s))"
proof -
  let ?s = "run es init"
  let ?h = "?s\<lparr>timeLeft := timeLeft ?s - 1\<rparr>"
  have wf: "distinct (map fst (cueScheduleRef ?s))"
    "fst ` set (cueScheduleRef ?s) \<subseteq> cueAudioRefs ?s"
    using wellFormed_reachable [of es] by (simp_all add: wellFormed_def)
  have 1: "c \<in> firedNow (Tick i) ?s \<longleftrightarrow> timeLeft ?s - 1 = T \<and> c \<notin> playedCuesRef ?s"
    and 2: "CuePlay c \<in> set (newSounds (Tick i) ?s) \<longleftrightarrow>
             timeLeft ?s - 1 = T \<and> c \<notin> playedCuesRef ?s"
    if r: "running ?s" and i: "i \<in> timers ?s" and m: "map_of (cueScheduleRef ?s) c = Some T"
  proof -
    have st: "step (Tick i) ?s = cueEffect ?h"
      using i by (rule step_Tick)
    show "c \<in> firedNow (Tick i) ?s \<longleftrightarrow> timeLeft ?s - 1 = T \<and> c \<notin> playedCuesRef ?s"
      using cueEffect_fires_iff [of ?h c T] wf(1) m r
      by (simp add: firedNow_def st)
    show "CuePlay c \<in> set (newSounds (Tick i) ?s) \<longleftrightarrow>
            timeLeft ?s - 1 = T \<and> c \<notin> playedCuesRef ?s"
      using cueEffect_sound_iff [of ?h c T] wf m r
      by (simp add: newSounds_def st)
  qed
  have 3: "c \<notin> firedNow (Tick i) ?s"
    if "running ?s" "i \<in> timers ?s" "map_of (cueScheduleRef ?s) c = Some T"
       "timeLeft ?s - 1 = T + 1 \<or> timeLeft ?s - 1 = T - 1"
    using 1 [OF that(1,2,3)] that(4) by auto
  have 4: "c \<notin> playedCuesRef (renders ts s)"
    if "distinct (map fst (cueScheduleRef s))" "map_of (cueScheduleRef s) c = Some T"
       "c \<notin> playedCuesRef s" "T \<notin> set ts"
    using that by (rule renders_never_fires)
  from 1 2 3 4 show ?thesis by blast
qed


text \<open>
  \<open>gameover\<close> in a one-minute countdown: the tick from 6 to 5 fires it, the tick from 7 to 6
  does not, and renders that observe 7, 6, 4, 3 never fire it.
\<close>

theorem exact_match_firing_witness:
  "running (session ''gameover'' 54) \<and> 0 \<in> timers (session ''gameover'' 54) \<and>
   map_of (cueScheduleRef (session ''gameover'' 54)) ''gameover'' = Some 5 \<and>
   timeLeft (session ''gameover'' 54) - 1 = 5 \<and>
   ''gameover'' \<in> firedNow (Tick 0) (session ''gameover'' 54) \<and>
   CuePlay ''gameover'' \<in> set (newSounds (Tick 0) (session ''gameover'' 54)) \<and>
   timeLeft (session ''gameover'' 53) - 1 = 5 + 1 \<and>
   ''gameover'' \<notin> firedNow (Tick 0) (session ''gameover'' 53) \<and>
   (5::number) \<notin> set [7, 6, 4, 3] \<and>
   ''gameover'' \<notin> playedCuesRef (renders [7, 6, 4, 3] (session ''gameover'' 0))"
proof -
  have a: "running (session ''gameover'' 54)" "0 \<in> timers (session ''gameover'' 54)"
    "map_of (cueScheduleRef (session ''gameover'' 54)) ''gameover'' = Some 5"
    "timeLeft (session ''gameover'' 54) - 1 = 5"
    "''gameover'' \<notin> playedCuesRef (session ''gameover'' 54)"
    by code_simp+
  have b: "running (session ''gameover'' 53)" "0 \<in> timers (session ''gameover'' 53)"
    "map_of (cueScheduleRef (session ''gameover'' 53)) ''gameover'' = Some 5"
    "timeLeft (session ''gameover'' 53) - 1 = 5 + 1"
    by code_simp+
  have c: "distinct (map fst (cueScheduleRef (session ''gameover'' 0)))"
    "map_of (cueScheduleRef (session ''gameover'' 0)) ''gameover'' = Some 5"
    "''gameover'' \<notin> playedCuesRef (session ''gameover'' 0)"
    "(5::number) \<notin> set [7, 6, 4, 3]"
    by code_simp+
  from exact_match_firing
         [of "[ToggleCue ''gameover'', DurationChange 1, ClickStart] @ replicate 54 (Tick 0)" 0
             "''gameover''" 5 "session ''gameover'' 0" "[7, 6, 4, 3]"]
       exact_match_firing
         [of "[ToggleCue ''gameover'', DurationChange 1, ClickStart] @ replicate 53 (Tick 0)" 0
             "''gameover''" 5 "session ''gameover'' 0" "[7, 6, 4, 3]"]
       a b c
  show ?thesis
    unfolding session_def [symmetric] by blast
qed

subsection \<open>The end of the countdown\<close>

lemma run_stale_ticks:
  assumes "timers s = {}"
  shows "run (map Tick js) s = s"
  using assms by (induction js) (simp_all add: run_Nil run_Cons step_Tick_stale)

text \<open>
  Claim C6. In a reachable running state with one second left, the tick that sets \<open>timeLeft\<close>
  to 0 also, in the same step, removes the interval timer and sets \<open>running\<close> to false; no
  timer is installed afterwards, so no later timer callback, whichever timer it belongs to,
  changes the state. In every reachable state that is not running no timer is installed.
\<close>
theorem countdown_stops_at_zero:
  "(running (run es init) \<and> i \<in> timers (run es init) \<and> timeLeft (run es init) = 1 \<longrightarrow>
      timeLeft (step (Tick i) (run es init)) = 0 \<and>
      \<not> running (step (Tick i) (run es init)) \<and>
      timers (step (Tick i) (run es init)) = {} \<and>
      step (Tick j) (step (Tick i) (run es init)) = step (Tick i) (run es init) \<and>
      run (map Tick js) (step (Tick i) (run es init)) = step (Tick i) (run es init)) \<and>
   (\<not> running (run es init) \<longrightarrow>
      timers (run es init) = {} \<and>
      run (map Tick js) (run es init) = run es init)"
proof -
  let ?s = "run es init"
  let ?s' = "step (Tick i) ?s"
  have wf: "timers ?s = (if running ?s then set_option (intervalRef ?s) else {})"
    using wellFormed_reachable [of es] by (simp add: wellFormed_def)
  have 1: "timeLeft ?s' = 0" "\<not> running ?s'" "timers ?s' = {}"
    "step (Tick j) ?s' = ?s'" "run (map Tick js) ?s' = ?s'"
    if r: "running ?s" and i: "i \<in> timers ?s" and t: "timeLeft ?s = 1"
  proof -
    have st: "?s' = cueEffect (?s\<lparr>timeLeft := timeLeft ?s - 1\<rparr>)"
      using i by (rule step_Tick)
    show "timeLeft ?s' = 0"
      unfolding st using t by (simp add: cueEffect_frame)
    show "\<not> running ?s'"
      unfolding st using t by (simp add: cueEffect_running)
    show e: "timers ?s' = {}"
      unfolding st using t r wf by (simp add: cueEffect_timers)
    show "step (Tick j) ?s' = ?s'"
      using e by (simp add: step_Tick_stale)
    show "run (map Tick js) ?s' = ?s'"
      using e by (rule run_stale_ticks)
  qed
  have 2: "timers ?s = {}" "run (map Tick js) ?s = ?s" if "\<not> running ?s"
  proof -
    show e: "timers ?s = {}" using wf that by simp
    show "run (map Tick js) ?s = ?s" using e by (rule run_stale_ticks)
  qed
  from 1 2 show ?thesis by blast
qed

text \<open>
  A one-minute countdown after 59 ticks is in such a state; after the sixtieth tick further
  callbacks leave the state as it is.
\<close>

theorem countdown_stops_at_zero_witness:
  "running (session ''gameover'' 59) \<and> 0 \<in> timers (session ''gameover'' 59) \<and>
   timeLeft (session ''gameover'' 59) = 1 \<and>
   \<not> running (step (Tick 0) (session ''gameover'' 59)) \<and>
   step (Tick 0) (step (Tick 0) (session ''gameover'' 59)) = step (Tick 0) (session ''gameover'' 59) \<and>
   \<not> running (session ''gameover'' 60) \<and>
   run (map Tick [0, 0, 1]) (session ''gameover'' 60) = session ''gameover'' 60"
proof -
  have a: "running (session ''gameover'' 59)" "0 \<in> timers (session ''gameover'' 59)"
    "timeLeft (session ''gameover'' 59) = 1"
    by code_simp+
  have b: "\<not> running (session ''gameover'' 60)"
    by code_simp
  from countdown_stops_at_zero
         [of "[ToggleCue ''gameover'', DurationChange 1, ClickStart] @ replicate 59 (Tick 0)" 0 0 "[]"]
       countdown_stops_at_zero
         [of "[ToggleCue ''gameover'', DurationChange 1, ClickStart] @ replicate 60 (Tick 0)" 0 0 "[0, 0, 1]"]
       a b
  show ?thesis
    unfolding session_def [symmetric] by blast
qed

subsection \<open>The setup screen and the duration\<close>

lemma step_duration:
  "duration (step e s) =
     (case e of DurationChange v \<Rightarrow> if \<not> running s \<and> 0 < v then v else duration s
      | _ \<Rightarrow> duration s)"
  by (simp add: step_frame handle_duration)

lemma duration_reachable: "0 < duration (run es init)"
  using wellFormed_reachable [of es] by (simp add: wellFormed_def)

lemma step_ClickStart_idle:
  assumes "\<not> running s"
  shows "step ClickStart s = cueEffect (handleStart s)"
    and "running (handleStart s)"
    and "timeLeft (handleStart s) = duration s * 60"
  using assms by (simp_all add: step_def handleStart_def Let_def)

lemma step_setup_while_running:
  assumes "running s"
  shows "step ClickStart s = s" "step (ToggleCue c) s = s" "step (DurationChange v) s = s"
  using assms by (simp_all add: step_def)

text \<open>
  Claim C2, as the component has it. While \<open>running\<close> is true the setup screen is not
  rendered, so Start cannot be clicked: a click on Start, on a checkbox or an edit of the
  duration leaves the whole state, with \<open>timeLeft\<close>, the schedule and the set of played cues,
  unchanged. No error is reported.
\<close>
theorem start_not_offered_while_running:
  "running s \<longrightarrow>
     step ClickStart s = s \<and> step (ToggleCue c) s = s \<and> step (DurationChange v) s = s"
  by (simp add: step_setup_while_running)

text \<open>One tick into a countdown, a click on Start changes nothing: 59 seconds remain.\<close>

theorem start_not_offered_while_running_witness:
  "running (session ''gameover'' 1) \<and>
   step ClickStart (session ''gameover'' 1) = session ''gameover'' 1 \<and>
   timeLeft (step ClickStart (session ''gameover'' 1)) = 59"
proof -
  have a: "running (session ''gameover'' 1)" "timeLeft (session ''gameover'' 1) = 59"
    by code_simp+
  from start_not_offered_while_running [of "session ''gameover'' 1" "''gameover''" 2] a
  show ?thesis by simp
qed

text \<open>
  Claim C2 as stated fails for \<open>handleStart\<close> itself, which has no check of \<open>running\<close>: called
  one tick into a countdown it sets \<open>timeLeft\<close> back from 59 to 60 and installs a second timer.
\<close>

theorem handleStart_while_running_counterexample:
  "running (session ''gameover'' 1) \<and>
   timeLeft (session ''gameover'' 1) = 59 \<and>
   timeLeft (handleStart (session ''gameover'' 1)) = 60 \<and>
   timers (handleStart (session ''gameover'' 1)) = {0, 1}"
  by code_simp

text \<open>
  Claim C7, as the component has it. A duration that is not positive is never committed:
  \<open>handleDurationChange\<close> ignores a value \<open>v \<le> 0\<close> and leaves the state unchanged. So in every
  reachable state the total \<open>duration * 60\<close> is positive, and a click on Start in a reachable
  idle state always starts the countdown, at that positive total.
\<close>
theorem nonpositive_duration_never_committed:
  "(v \<le> 0 \<longrightarrow> step (DurationChange v) s = s) \<and>
   0 < duration (run es init) * 60 \<and>
   (\<not> running (run es init) \<longrightarrow>
      timeLeft (step ClickStart (run es init)) = duration (run es init) * 60 \<and>
      0 < timeLeft (step ClickStart (run es init)) \<and>
      running (step ClickStart (run es init)))"
proof -
  let ?s = "run es init"
  have 1: "step (DurationChange v) s = s" if "v \<le> 0"
    using that by (simp add: step_def handleDurationChange_def)
  have 2: "0 < duration ?s * 60"
    using duration_reachable [of es] by simp
  have 3: "timeLeft (step ClickStart ?s) = duration ?s * 60"
     "0 < timeLeft (step ClickStart ?s)" "running (step ClickStart ?s)"
    if "\<not> running ?s"
  proof -
    note st = step_ClickStart_idle [OF that]
    show t: "timeLeft (step ClickStart ?s) = duration ?s * 60"
      by (simp add: st cueEffect_frame)
    show "0 < timeLeft (step ClickStart ?s)"
      using t 2 by simp
    show "running (step ClickStart ?s)"
      using 2 by (simp add: st cueEffect_running)
  qed
  from 1 2 3 show ?thesis by blast
qed

text \<open>Edits to 0 and to -5 are ignored; the countdown then starts at 3600.\<close>

theorem nonpositive_duration_never_committed_witness:
  "(0::number) \<le> 0 \<and> step (DurationChange 0) init = init \<and>
   \<not> running (run [DurationChange (-5)] init) \<and>
   timeLeft (step ClickStart (run [DurationChange (-5)] init)) = 3600"
proof -
  have a: "\<not> running (run [DurationChange (-5)] init)"
    "duration (run [DurationChange (-5)] init) = 60"
    by code_simp+
  from nonpositive_duration_never_committed [of 0 init "[DurationChange (-5)]"] a
  show ?thesis by simp
qed

text \<open>
  Claim C7 as stated fails for \<open>handleStart\<close> itself, which does not look at the total: on a
  state with duration -1 it builds the schedule, installs a timer and runs from -60.
\<close>

theorem handleStart_nonpositive_counterexample:
  "duration (init\<lparr>duration := - 1, selectedCues := [''gameover'']\<rparr>) * 60 \<le> 0 \<and>
   running (step ClickStart (init\<lparr>duration := - 1, selectedCues := [''gameover'']\<rparr>)) \<and>
   timeLeft (step ClickStart (init\<lparr>duration := - 1, selectedCues := [''gameover'']\<rparr>)) = - 60 \<and>
   cueScheduleRef (step ClickStart (init\<lparr>duration := - 1, selectedCues := [''gameover'']\<rparr>))
     = [(''gameover'', 5)] \<and>
   timers (step ClickStart (init\<lparr>duration := - 1, selectedCues := [''gameover'']\<rparr>)) = {0}"
  by code_simp

text \<open>
  Claim C10, as the component has it. The duration starts at 60 and is changed only by an edit
  of the duration field, while not running, to a value greater than 0. So in every reachable
  state the duration and the total \<open>duration * 60\<close> are positive, and the denominator of
  \<open>progressPercent\<close> is not 0. The total is at least 60 exactly when the duration is at least 1.
\<close>
theorem duration_always_positive:
  "duration init = 60 \<and>
   duration (step e s) =
     (case e of DurationChange v \<Rightarrow> if \<not> running s \<and> 0 < v then v else duration s
      | _ \<Rightarrow> duration s) \<and>
   0 < duration (run es init) \<and>
   0 < duration (run es init) * 60 \<and>
   (60 \<le> duration (run es init) * 60) = (1 \<le> duration (run es init)) \<and>
   progressPercent (run es init) =
     (if running (run es init)
      then (duration (run es init) * 60 - timeLeft (run es init)) / (duration (run es init) * 60) * 100
      else 0)"
proof -
  let ?s = "run es init"
  have p: "0 < duration ?s" by (rule duration_reachable)
  then have "1 - timeLeft ?s / (duration ?s * 60) =
             (duration ?s * 60 - timeLeft ?s) / (duration ?s * 60)"
    by (simp add: field_simps)
  then have "progressPercent ?s =
     (if running ?s then (duration ?s * 60 - timeLeft ?s) / (duration ?s * 60) * 100 else 0)"
    by (simp add: progressPercent_def)
  moreover have "duration init = 60" by (simp add: init_def)
  moreover have "(60 \<le> duration ?s * 60) = (1 \<le> duration ?s)" by simp
  ultimately show ?thesis
    using p step_duration [of e s] by simp
qed

text \<open>The edits of the duration to 0 and to 45, and the durations 1/2 and -3 in a row.\<close>

theorem duration_always_positive_witness:
  "duration (step (DurationChange 0) init) = 60 \<and>
   duration (step (DurationChange 45) init) = 45 \<and>
   0 < duration (run [DurationChange (1 / 2), DurationChange (- 3)] init) * 60"
  using duration_always_positive [of "DurationChange 0" init "[DurationChange (1 / 2), DurationChange (- 3)]"]
        duration_always_positive [of "DurationChange 45" init "[]"]
  by (simp add: init_def)

text \<open>
  Claim C10 as stated fails: the duration field accepts 1/2, and the countdown then starts at
  30 seconds, below 60.
\<close>

theorem total_seconds_below_60_counterexample:
  "duration (run [DurationChange (1 / 2)] init) = 1 / 2 \<and>
   running (run [DurationChange (1 / 2), ClickStart] init) \<and>
   timeLeft (run [DurationChange (1 / 2), ClickStart] init) = 30 \<and>
   \<not> 60 \<le> timeLeft (run [DurationChange (1 / 2), ClickStart] init)"
  by code_simp

subsection \<open>The set of played cues across runs\<close>

lemma handleStart_playedCuesRef: "playedCuesRef (handleStart s) = playedCuesRef s"
  by (simp add: handleStart_def Let_def)

lemma start_fires_unplayed_cue:
  assumes idle: "\<not> running s"
    and sel: "c \<in> set (selectedCues s)"
    and trig: "triggerOf c = Some (duration s * 60)"
    and fresh: "c \<notin> playedCuesRef s"
  shows "CuePlay c \<in> set (newSounds ClickStart s)"
    and "c \<in> firedNow ClickStart s"
    and "timeLeft (step ClickStart s) = duration s * 60"
proof -
  let ?h = "handleStart s"
  note st = step_ClickStart_idle [OF idle]
  have d: "distinct (map fst (cueScheduleRef ?h))"
    using build_distinct [of "([], cueAudioRefs s)" "selectedCues s"]
    by (simp add: handleStart_def Let_def)
  have k: "fst ` set (cueScheduleRef ?h) \<subseteq> cueAudioRefs ?h"
    using build_cached [of "([], cueAudioRefs s)" "selectedCues s"]
    by (simp add: handleStart_def Let_def)
  have m: "map_of (cueScheduleRef ?h) c = Some (duration s * 60)"
    using sel trig by (simp add: handleStart_lookup)
  have ph: "played ?h = played s @ [MainTrack]"
    by (simp add: handleStart_def Let_def)
  from cueEffect_played [of ?h] obtain zs where
    zs: "played (cueEffect ?h) = played ?h @ zs"
    by blast
  have "CuePlay c \<in> set (drop (length (played ?h)) (played (cueEffect ?h)))"
    using cueEffect_sound_iff [OF d m k] st(2,3) fresh
    by (simp add: handleStart_playedCuesRef)
  then have "CuePlay c \<in> set zs"
    by (simp add: zs)
  moreover have "newSounds ClickStart s = MainTrack # zs"
    by (simp add: newSounds_def st(1) zs ph)
  ultimately show "CuePlay c \<in> set (newSounds ClickStart s)"
    by simp
  show "c \<in> firedNow ClickStart s"
    using cueEffect_fires_iff [OF d m] st(2,3) fresh
    by (simp add: firedNow_def st(1) handleStart_playedCuesRef)
  show "timeLeft (step ClickStart s) = duration s * 60"
    by (simp add: st cueEffect_frame)
qed

text \<open>
  Claim C1 fails on the component. \<open>gameover\<close> selected, one minute: the first countdown fires
  the cue and ends. After the second click on Start the countdown runs again from 60, and
  \<open>playedCuesRef\<close> still holds \<open>gameover\<close>; the second countdown ends without playing the cue.
\<close>
theorem played_set_survives_restart:
  "\<not> running (session ''gameover'' 60) \<and>
   playedCuesRef (session ''gameover'' 60) = {''gameover''} \<and>
   running (run [ClickStart] (session ''gameover'' 60)) \<and>
   timeLeft (run [ClickStart] (session ''gameover'' 60)) = 60 \<and>
   playedCuesRef (run [ClickStart] (session ''gameover'' 60)) = {''gameover''} \<and>
   played (run (ClickStart # replicate 60 (Tick 1)) (session ''gameover'' 60)) =
     [MainTrack, CuePlay ''gameover'', MainPause, MainTrack, MainPause]"
  by code_simp

text \<open>
  Claim C9 holds in a first run and fails in a later one. \<open>40min\<close> with 40 minutes, and
  \<open>blackout\<close> with one minute, are played by the click on Start itself. After that countdown
  has ended, a second click on Start schedules \<open>blackout\<close> at the new \<open>timeLeft\<close> again, but
  plays the main track only.
\<close>
theorem start_cue_skipped_on_second_run:
  "newSounds ClickStart (run [ToggleCue ''40min'', DurationChange 40] init) =
     [MainTrack, CuePlay ''40min''] \<and>
   newSounds ClickStart (run [ToggleCue ''blackout'', DurationChange 1] init) =
     [MainTrack, CuePlay ''blackout''] \<and>
   timeLeft (session ''blackout'' 0) = 60 \<and>
   \<not> running (session ''blackout'' 60) \<and>
   ''blackout'' \<in> set (selectedCues (session ''blackout'' 60)) \<and>
   running (run [ClickStart] (session ''blackout'' 60)) \<and>
   map_of (cueScheduleRef (run [ClickStart] (session ''blackout'' 60))) ''blackout'' =
     Some (timeLeft (run [ClickStart] (session ''blackout'' 60))) \<and>
   newSounds ClickStart (session ''blackout'' 60) = [MainTrack]"
  by code_simp

end
